theory Spec2Isabelle
  imports Main "HOL-Library.FSet" "HOL-Library.Product_Lexorder"
begin

section \<open>Python values shared by both programs\<close>

text \<open>
  Exceptions are values: a function that can raise returns \<open>py_error + 'a\<close>, with
  \<open>Inl\<close> the exception (its class and message) and \<open>Inr\<close> the returned value.
\<close>

datatype py_error = IndexError string | ValueError string

definition ebind :: "py_error + 'a \<Rightarrow> ('a \<Rightarrow> py_error + 'b) \<Rightarrow> py_error + 'b" where
  "ebind m f = (case m of Inl e \<Rightarrow> Inl e | Inr x \<Rightarrow> f x)"

text \<open>Python list indexing \<open>xs[i]\<close>: a negative index counts from the end, and an
  index outside the list raises IndexError.\<close>

definition py_index :: "'a list \<Rightarrow> int \<Rightarrow> py_error + 'a" where
  "py_index xs i =
     (if 0 \<le> i \<and> i < int (length xs) then Inr (xs ! nat i)
      else if i < 0 \<and> - int (length xs) \<le> i then Inr (xs ! nat (int (length xs) + i))
      else Inl (IndexError ''list index out of range''))"

text \<open>A Python set is a finite set (\<open>'a fset\<close>). Iterating over it visits every
  element once, in an order the language does not fix; the model iterates in ascending
  order.\<close>

definition set_iter :: "('a::linorder) fset \<Rightarrow> 'a list" where
  "set_iter S = sorted_list_of_fset S"

section \<open>Tic-tac-toe (tictactoe.py)\<close>

datatype mark = X | O'

text \<open>\<open>EMPTY = None\<close>: a square is \<open>None\<close> or a mark.\<close>

type_synonym square = "mark option"
type_synonym board = "square list list"
type_synonym action = "int \<times> int"

definition initial_state :: board where
  "initial_state = [[None, None, None], [None, None, None], [None, None, None]]"

definition player :: "board \<Rightarrow> mark" where
  "player board =
     (let count_X = sum_list (map (\<lambda>row. count_list row (Some X)) board);
          count_O = sum_list (map (\<lambda>row. count_list row (Some O')) board)
      in if count_X > count_O then O' else X)"

definition actions :: "board \<Rightarrow> action fset" where
  "actions board =
     fset_of_list (concat (map (\<lambda>i. map (\<lambda>j. (int i, int j))
                               (filter (\<lambda>j. board ! i ! j = None) [0..<length (board ! i)]))
                      [0..<length board]))"

definition result :: "board \<Rightarrow> action \<Rightarrow> py_error + board" where
  "result board action =
     (case action of (i, j) \<Rightarrow>
        if i < 0 \<or> j < 0 then Inl (IndexError ''action({i}, {j}) out of board'')
        else ebind (py_index board i) (\<lambda>row.
             ebind (py_index row j) (\<lambda>sq.
               if sq \<noteq> None then Inl (ValueError ''Invalid action'')
               else (let move = player board
                     in Inr (board[nat i := (board ! nat i)[nat j := Some move]])))))"

text \<open>\<open>winner\<close>: the test applied to the row set, to each column set and to each
  diagonal set.\<close>

definition line_won :: "square set \<Rightarrow> bool" where
  "line_won s = (card s = 1 \<and> None \<notin> s)"

text \<open>\<open>vertically[j].add(row[j])\<close> for every \<open>j\<close> in \<open>range(len(row))\<close>; a row longer
  than the first one indexes \<open>vertically\<close> out of range.\<close>

definition vertically_add :: "square set list \<Rightarrow> square list \<Rightarrow> py_error + square set list" where
  "vertically_add vertically row =
     (if length row \<le> length vertically
      then Inr (map (\<lambda>j. if j < length row then insert (row ! j) (vertically ! j)
                           else vertically ! j) [0..<length vertically])
      else Inl (IndexError ''list index out of range''))"

text \<open>The two loops after the row loop: columns first, then the two diagonals.\<close>

definition winner_after :: "square set list \<Rightarrow> square set list \<Rightarrow> square" where
  "winner_after vertically diagonally =
     (case find line_won vertically of
        Some col \<Rightarrow> the_elem col
      | None \<Rightarrow> (case find line_won diagonally of
                   Some diagonal \<Rightarrow> the_elem diagonal
                 | None \<Rightarrow> None))"

text \<open>The row loop, from row \<open>i\<close> on, with the loop's variables as arguments.\<close>

fun winner_loop ::
  "square list list \<Rightarrow> nat \<Rightarrow> square set list \<Rightarrow> square set \<Rightarrow> square set \<Rightarrow> py_error + square"
where
  "winner_loop [] i vertically d0 d1 = Inr (winner_after vertically [d0, d1])"
| "winner_loop (row # rest) i vertically d0 d1 =
     (let horizontally = set row in
      if line_won horizontally then Inr (the_elem horizontally)
      else ebind (if length vertically = 0 then Inr (map (\<lambda>piece. {piece}) row)
                  else vertically_add vertically row) (\<lambda>vertically'.
           ebind (py_index row (int i)) (\<lambda>p0.
           ebind (py_index row (int (length row) - 1 - int i)) (\<lambda>p1.
             winner_loop rest (Suc i) vertically' (insert p0 d0) (insert p1 d1)))))"

definition winner :: "board \<Rightarrow> py_error + square" where
  "winner board = winner_loop board 0 [] {} {}"

definition terminal :: "board \<Rightarrow> py_error + bool" where
  "terminal board =
     ebind (winner board) (\<lambda>w.
       if w = None then Inr (if actions board \<noteq> {||} then False else True)
       else Inr True)"

definition utility :: "board \<Rightarrow> py_error + int" where
  "utility board =
     ebind (winner board) (\<lambda>winner_player.
       if winner_player = Some X then Inr 1
       else if winner_player = Some O' then Inr (- 1)
       else Inr 0)"

text \<open>A 3x3 board: three rows of three squares.\<close>

definition board3 :: "board \<Rightarrow> bool" where
  "board3 b = (length b = 3 \<and> list_all (\<lambda>row. length row = 3) b)"


section \<open>Minesweeper knowledge engine (minesweeper.py)\<close>

type_synonym cell = "int \<times> int"

text \<open>class Sentence: a set of cells and the number of them that are mines.\<close>

record sentence =
  cells :: "cell fset"
  count :: int

definition known_mines :: "sentence \<Rightarrow> cell fset" where
  "known_mines s = (if int (fcard (cells s)) = count s then cells s else {||})"

definition known_safes :: "sentence \<Rightarrow> cell fset" where
  "known_safes s = (if count s = 0 then cells s else {||})"

definition sentence_mark_mine :: "sentence \<Rightarrow> cell \<Rightarrow> sentence" where
  "sentence_mark_mine s c =
     (if c |\<in>| cells s then s\<lparr>cells := cells s |-| {|c|}, count := count s - 1\<rparr> else s)"

definition sentence_mark_safe :: "sentence \<Rightarrow> cell \<Rightarrow> sentence" where
  "sentence_mark_safe s c =
     (if c |\<in>| cells s then s\<lparr>cells := cells s |-| {|c|}\<rparr> else s)"

text \<open>class MinesweeperAI. The sentences of \<open>knowledge\<close> are objects changed in place;
  every one of them is referenced from the list only, at one position, so the list of
  their values is the store, and two sentences are the same object exactly when their
  positions are equal.\<close>

record ai =
  height :: int
  width :: int
  moves_made :: "cell fset"
  mines :: "cell fset"
  safes :: "cell fset"
  knowledge :: "sentence list"

definition ai_init :: "int \<Rightarrow> int \<Rightarrow> ai" where
  "ai_init h w = \<lparr>height = h, width = w, moves_made = {||}, mines = {||}, safes = {||},
                  knowledge = []\<rparr>"

definition mark_mine :: "ai \<Rightarrow> cell \<Rightarrow> ai" where
  "mark_mine a c = a\<lparr>mines := finsert c (mines a),
                       knowledge := map (\<lambda>s. sentence_mark_mine s c) (knowledge a)\<rparr>"

definition mark_safe :: "ai \<Rightarrow> cell \<Rightarrow> ai" where
  "mark_safe a c = a\<lparr>safes := finsert c (safes a),
                       knowledge := map (\<lambda>s. sentence_mark_safe s c) (knowledge a)\<rparr>"

definition get_neighbors :: "ai \<Rightarrow> cell \<Rightarrow> cell fset" where
  "get_neighbors a cell =
     fset_of_list (concat (map (\<lambda>i. concat (map (\<lambda>j.
         if (i, j) = cell then []
         else if 0 \<le> i \<and> i < height a \<and> 0 \<le> j \<and> j < width a then [(i, j)]
         else [])
       [snd cell - 1 .. snd cell + 1])) [fst cell - 1 .. fst cell + 1]))"

text \<open>\<open>make_conclusion\<close> on the sentence at position \<open>i\<close>: the loop runs over a copy of
  its cells taken before the first mark.\<close>

definition make_conclusion :: "ai \<Rightarrow> nat \<Rightarrow> ai" where
  "make_conclusion a i =
     (let sentence = knowledge a ! i in
      if count sentence = 0
      then fold (\<lambda>cell a'. mark_safe a' cell) (set_iter (cells sentence)) a
      else if int (fcard (cells sentence)) = count sentence
      then fold (\<lambda>cell a'. mark_mine a' cell) (set_iter (cells sentence)) a
      else a)"

text \<open>\<open>make_inference\<close> on the sentences at positions \<open>i\<close> and \<open>j\<close> of the
  knowledge list \<open>kb\<close>.\<close>

definition make_inference :: "sentence list \<Rightarrow> nat \<Rightarrow> nat \<Rightarrow> sentence option" where
  "make_inference kb i j =
     (if i = j then None
      else (case (if fcard (cells (kb ! i)) > fcard (cells (kb ! j))
                  then (kb ! j, kb ! i) else (kb ! i, kb ! j)) of
              (set1, set2) \<Rightarrow>
                if cells set1 |\<subseteq>| cells set2
                then (let new_sentence = \<lparr>cells = cells set2 |-| cells set1,
                                            count = count set2 - count set1\<rparr>
                      in if new_sentence \<notin> set kb then Some new_sentence else None)
                else None))"

text \<open>The three steps of one pass of the \<open>while True\<close> loop.\<close>

definition conclude_all :: "ai \<Rightarrow> ai" where
  "conclude_all a = fold (\<lambda>i a'. make_conclusion a' i) [0..<length (knowledge a)] a"

definition remove_empty :: "ai \<Rightarrow> ai" where
  "remove_empty a = a\<lparr>knowledge := filter (\<lambda>s. fcard (cells s) \<noteq> 0) (knowledge a)\<rparr>"

definition new_sentences :: "sentence list \<Rightarrow> sentence list" where
  "new_sentences kb =
     concat (map (\<lambda>i. List.map_filter (\<lambda>j. make_inference kb i j) [0..<length kb])
                 [0..<length kb])"

definition infer_all :: "ai \<Rightarrow> ai" where
  "infer_all a = a\<lparr>knowledge := knowledge a @ new_sentences (knowledge a)\<rparr>"

definition loop_pass :: "ai \<Rightarrow> ai" where
  "loop_pass a = infer_all (remove_empty (conclude_all a))"

text \<open>The \<open>while True\<close> loop; \<open>None\<close> when it never reaches \<open>break\<close>.\<close>

partial_function (option) fixpoint_loop :: "ai \<Rightarrow> ai option" where
  "fixpoint_loop a =
     (let prev_mines = fcard (mines a);
          prev_safes = fcard (safes a);
          prev_knowledge = length (knowledge a);
          a' = loop_pass a
      in if fcard (mines a') = prev_mines \<and> fcard (safes a') = prev_safes
            \<and> length (knowledge a') = prev_knowledge
         then Some a' else fixpoint_loop a')"

definition add_knowledge :: "ai \<Rightarrow> cell \<Rightarrow> int \<Rightarrow> ai option" where
  "add_knowledge a cell cnt =
     (let a1 = mark_safe (a\<lparr>moves_made := finsert cell (moves_made a)\<rparr>) cell;
          neighbors = get_neighbors a1 cell;
          neighbors_known_to_be_mines = neighbors |\<inter>| mines a1;
          neighbors_known_to_be_safes = neighbors |\<inter>| safes a1;
          neighbors_known = neighbors_known_to_be_mines |\<union>| neighbors_known_to_be_safes;
          neighbors_not_known = neighbors |-| neighbors_known
      in if fcard neighbors_not_known = 0 then Some a1
         else (let neighbors_mines_count = cnt - int (fcard neighbors_known_to_be_mines);
                   new_sentence = \<lparr>cells = neighbors_not_known, count = neighbors_mines_count\<rparr>
               in if new_sentence \<in> set (knowledge a1) then Some a1
                  else fixpoint_loop (a1\<lparr>knowledge := knowledge a1 @ [new_sentence]\<rparr>)))"

text \<open>\<open>make_safe_move\<close>: \<open>r\<close> is the draw of \<open>random.choice\<close>, an index into the
  list of candidates. The state is returned with the move.\<close>

definition make_safe_move :: "ai \<Rightarrow> nat \<Rightarrow> cell option \<times> ai" where
  "make_safe_move a r =
     (let safe_moves = safes a |-| moves_made a
      in (if fcard safe_moves \<noteq> 0
          then Some (set_iter safe_moves ! (r mod length (set_iter safe_moves)))
          else None, a))"

declare fixpoint_loop.simps [code]

text \<open>Names for the state \<open>add_knowledge\<close> reaches after its first two steps, for the
  neighbours it finds unknown there, and for the sentence it builds from them.\<close>

definition after_mark :: "ai \<Rightarrow> cell \<Rightarrow> ai" where
  "after_mark a cell = mark_safe (a\<lparr>moves_made := finsert cell (moves_made a)\<rparr>) cell"

definition unknown_neighbors :: "ai \<Rightarrow> cell \<Rightarrow> cell fset" where
  "unknown_neighbors a cell =
     get_neighbors a cell |-| ((get_neighbors a cell |\<inter>| mines a) |\<union>| (get_neighbors a cell |\<inter>| safes a))"

definition observed :: "ai \<Rightarrow> cell \<Rightarrow> int \<Rightarrow> sentence" where
  "observed a cell cnt =
     \<lparr>cells = unknown_neighbors a cell,
      count = cnt - int (fcard (get_neighbors a cell |\<inter>| mines a))\<rparr>"

text \<open>The states after \<open>add_knowledge((0,0), 1)\<close> and then \<open>add_knowledge((0,1), 2)\<close>
  on a new 8x8 engine.\<close>

definition s_first :: ai where
  "s_first = \<lparr>height = 8, width = 8, moves_made = {|(0, 0)|}, mines = {||}, safes = {|(0, 0)|},
     knowledge = [\<lparr>cells = {|(0, 1), (1, 0), (1, 1)|}, count = 1\<rparr>]\<rparr>"

definition s_second :: ai where
  "s_second = \<lparr>height = 8, width = 8, moves_made = {|(0, 1), (0, 0)|}, mines = {||},
     safes = {|(0, 1), (0, 0)|},
     knowledge = [\<lparr>cells = {|(1, 0), (1, 1)|}, count = 1\<rparr>,
                  \<lparr>cells = {|(0, 2), (1, 0), (1, 1), (1, 2)|}, count = 2\<rparr>,
                  \<lparr>cells = {|(0, 2), (1, 2)|}, count = 1\<rparr>,
                  \<lparr>cells = {|(0, 2), (1, 2)|}, count = 1\<rparr>,
                  \<lparr>cells = {||}, count = 0\<rparr>,
                  \<lparr>cells = {||}, count = 0\<rparr>]\<rparr>"

text \<open>The sentences that are live when the inference step of a pass starts, and the
  sentence the step derives from a sentence and a sentence over a superset of its cells.\<close>

definition live_sentences :: "ai \<Rightarrow> sentence list" where
  "live_sentences a = knowledge (remove_empty (conclude_all a))"

definition difference_sentence :: "sentence \<Rightarrow> sentence \<Rightarrow> sentence" where
  "difference_sentence s1 s2 =
     \<lparr>cells = cells s2 |-| cells s1, count = count s2 - count s1\<rparr>"

text \<open>A knowledge base holding \<open>{(0,0),(0,1)} = 1\<close> and \<open>{(0,0),(0,1),(0,2)} = 2\<close>.\<close>

definition kb_example :: ai where
  "kb_example = \<lparr>height = 1, width = 3, moves_made = {||}, mines = {||}, safes = {||},
     knowledge = [\<lparr>cells = {|(0, 0), (0, 1)|}, count = 1\<rparr>,
                  \<lparr>cells = {|(0, 0), (0, 1), (0, 2)|}, count = 2\<rparr>]\<rparr>"

text \<open>The states of the engine reachable from a new engine by calls of
  \<open>add_knowledge\<close> that return.\<close>

inductive reachable :: "ai \<Rightarrow> bool" where
  reachable_init: "reachable (ai_init h w)"
| reachable_step: "reachable a \<Longrightarrow> add_knowledge a cell cnt = Some a' \<Longrightarrow> reachable a'"

text \<open>Two properties of a state. \<open>kb_inv\<close>: no sentence mentions a cell known safe or
  known to be a mine, and a cell known both safe and mine has been played.
  \<open>obs_inv cell cnt\<close>: the cell is played and safe, and the sentence \<open>add_knowledge\<close>
  would build for it is in the knowledge unless no neighbour is unknown.\<close>

definition kb_inv :: "ai \<Rightarrow> bool" where
  "kb_inv a \<longleftrightarrow>
     (\<forall>s \<in> set (knowledge a). \<forall>c. c |\<in>| cells s \<longrightarrow> c |\<notin>| safes a \<and> c |\<notin>| mines a)
     \<and> (\<forall>c. c |\<in>| safes a \<longrightarrow> c |\<in>| mines a \<longrightarrow> c |\<in>| moves_made a)"

definition obs_inv :: "cell \<Rightarrow> int \<Rightarrow> ai \<Rightarrow> bool" where
  "obs_inv cell cnt a \<longleftrightarrow>
     cell |\<in>| safes a \<and> cell |\<in>| moves_made a
     \<and> (fcard (unknown_neighbors a cell) = 0 \<or> observed a cell cnt \<in> set (knowledge a))"

definition pass_inv :: "cell \<Rightarrow> int \<Rightarrow> ai \<Rightarrow> bool" where
  "pass_inv cell cnt a \<longleftrightarrow> kb_inv a \<and> obs_inv cell cnt a"

text \<open>The state after \<open>add_knowledge((0,0), 0)\<close> on a new 8x8 engine.\<close>

definition s_zero :: ai where
  "s_zero = \<lparr>height = 8, width = 8, moves_made = {|(0, 0)|}, mines = {||},
     safes = {|(0, 0), (0, 1), (1, 0), (1, 1)|}, knowledge = []\<rparr>"

section \<open>Properties of the board\<close>

text \<open>The eight lines of a 3x3 board (rows, columns, the two diagonals), and a board
  having one of them filled with the square value \<open>v\<close>.\<close>

definition lines3 :: "(nat \<times> nat) list list" where
  "lines3 = [[(0,0),(0,1),(0,2)], [(1,0),(1,1),(1,2)], [(2,0),(2,1),(2,2)],
             [(0,0),(1,0),(2,0)], [(0,1),(1,1),(2,1)], [(0,2),(1,2),(2,2)],
             [(0,0),(1,1),(2,2)], [(0,2),(1,1),(2,0)]]"

definition has_line :: "board \<Rightarrow> square \<Rightarrow> bool" where
  "has_line b v = list_ex (\<lambda>line. list_all (\<lambda>(i, j). b ! i ! j = v) line) lines3"

section \<open>Game state model: lemmas\<close>

lemma ebind_Inr [simp]: "ebind (Inr x) f = f x"
  by (simp add: ebind_def)

lemma ebind_Inl [simp]: "ebind (Inl e) f = Inl e"
  by (simp add: ebind_def)

lemma board3_cases:
  assumes "board3 b"
  obtains a0 a1 a2 b0 b1 b2 c0 c1 c2
  where "b = [[a0, a1, a2], [b0, b1, b2], [c0, c1, c2]]"
proof -
  from assms obtain r0 r1 r2 where b: "b = [r0, r1, r2]"
    and l: "length r0 = 3" "length r1 = 3" "length r2 = 3"
    by (auto simp: board3_def length_Suc_conv numeral_3_eq_3)
  from l obtain a0 a1 a2 b0 b1 b2 c0 c1 c2
    where "r0 = [a0, a1, a2]" "r1 = [b0, b1, b2]" "r2 = [c0, c1, c2]"
    by (auto simp: length_Suc_conv numeral_3_eq_3)
  with b show ?thesis using that by blast
qed

lemma card3_one: "card {a, b, c} = 1 \<longleftrightarrow> a = b \<and> b = c"
  by (auto simp: card_insert_if)

lemma line_won3: "line_won {a, b, c} \<longleftrightarrow> a = b \<and> b = c \<and> c \<noteq> None"
  unfolding line_won_def card3_one by (cases c) auto

lemma py_index3:
  "py_index [a, b, c] 0 = Inr a" "py_index [a, b, c] 1 = Inr b" "py_index [a, b, c] 2 = Inr c"
  by (simp_all add: py_index_def)

lemma vertically_add3:
  "vertically_add [s0, s1, s2] [a, b, c] = Inr [insert a s0, insert b s1, insert c s2]"
  by (simp add: vertically_add_def numeral_3_eq_3 upt_rec)

lemma winner_loop3:
  "winner_loop [[a0, a1, a2], [b0, b1, b2], [c0, c1, c2]] 0 [] {} {} =
   (if line_won {a0, a1, a2} then Inr (the_elem {a0, a1, a2})
    else if line_won {b0, b1, b2} then Inr (the_elem {b0, b1, b2})
    else if line_won {c0, c1, c2} then Inr (the_elem {c0, c1, c2})
    else Inr (winner_after [{c0, b0, a0}, {c1, b1, a1}, {c2, b2, a2}] [{c2, b1, a0}, {c0, b1, a2}]))"
  by (simp add: py_index3 vertically_add3 Let_def)

lemma line_elem:
  "(if line_won {a, b, c} then Inr (the_elem {a, b, c}) else R) =
   (if a = b \<and> b = c \<and> c \<noteq> None then Inr c else R)"
  by (auto simp: line_won3)

lemma find_line:
  "(case find line_won ({a, b, c} # xs) of Some col \<Rightarrow> the_elem col | None \<Rightarrow> R) =
   (if a = b \<and> b = c \<and> c \<noteq> None then c
    else (case find line_won xs of Some col \<Rightarrow> the_elem col | None \<Rightarrow> R))"
  by (auto simp: line_won3)

lemma find_nil: "(case find line_won [] of Some col \<Rightarrow> the_elem col | None \<Rightarrow> R) = R"
  by simp

lemma winner3:
  "winner [[a0, a1, a2], [b0, b1, b2], [c0, c1, c2]] =
     (if a0 = a1 \<and> a1 = a2 \<and> a2 \<noteq> None then Inr a2
      else if b0 = b1 \<and> b1 = b2 \<and> b2 \<noteq> None then Inr b2
      else if c0 = c1 \<and> c1 = c2 \<and> c2 \<noteq> None then Inr c2
      else Inr (if c0 = b0 \<and> b0 = a0 \<and> a0 \<noteq> None then a0
          else if c1 = b1 \<and> b1 = a1 \<and> a1 \<noteq> None then a1
          else if c2 = b2 \<and> b2 = a2 \<and> a2 \<noteq> None then a2
          else if c2 = b1 \<and> b1 = a0 \<and> a0 \<noteq> None then a0
          else if c0 = b1 \<and> b1 = a2 \<and> a2 \<noteq> None then a2
          else None))"
  unfolding winner_def winner_loop3 winner_after_def line_elem find_line find_nil
  by (rule refl)

lemma has_line3:
  "has_line [[a0, a1, a2], [b0, b1, b2], [c0, c1, c2]] v \<longleftrightarrow>
     (a0 = v \<and> a1 = v \<and> a2 = v) \<or> (b0 = v \<and> b1 = v \<and> b2 = v) \<or> (c0 = v \<and> c1 = v \<and> c2 = v) \<or>
     (a0 = v \<and> b0 = v \<and> c0 = v) \<or> (a1 = v \<and> b1 = v \<and> c1 = v) \<or> (a2 = v \<and> b2 = v \<and> c2 = v) \<or>
     (a0 = v \<and> b1 = v \<and> c2 = v) \<or> (a2 = v \<and> b1 = v \<and> c0 = v)"
  by (simp add: has_line_def lines3_def)

lemma winner3_total: "\<exists>w. winner [[a0, a1, a2], [b0, b1, b2], [c0, c1, c2]] = Inr w"
  unfolding winner3 by simp

lemma winner3_Some:
  assumes "winner [[a0, a1, a2], [b0, b1, b2], [c0, c1, c2]] = Inr (Some m)"
  shows "has_line [[a0, a1, a2], [b0, b1, b2], [c0, c1, c2]] (Some m)"
  using assms unfolding winner3 has_line3
  by (simp split: if_splits)

lemma winner3_None:
  assumes "winner [[a0, a1, a2], [b0, b1, b2], [c0, c1, c2]] = Inr None"
  shows "\<not> has_line [[a0, a1, a2], [b0, b1, b2], [c0, c1, c2]] (Some m)"
  using assms unfolding winner3 has_line3
  by (simp split: if_splits) blast

text \<open>
  Claim C9. On every 3x3 board, reachable or not, \<open>winner\<close> returns without raising;
  when it returns a mark, that mark fills a row, a column or a diagonal of the board, and
  it returns \<open>None\<close> only when no line is filled with a mark. A line of three empty
  squares is therefore never reported: it neither yields a winner nor stops the search
  for a later filled line.
\<close>

theorem winner_never_empty_line:
  assumes "board3 b"
  shows "\<exists>w. winner b = Inr w
           \<and> (\<forall>m. w = Some m \<longrightarrow> has_line b (Some m))
           \<and> (w = None \<longrightarrow> \<not> (\<exists>m. has_line b (Some m)))"
proof -
  from assms obtain a0 a1 a2 b0 b1 b2 c0 c1 c2
    where b: "b = [[a0, a1, a2], [b0, b1, b2], [c0, c1, c2]]"
    by (rule board3_cases)
  obtain w where w: "winner b = Inr w"
    unfolding b using winner3_total by blast
  have "\<forall>m. w = Some m \<longrightarrow> has_line b (Some m)"
    using w winner3_Some unfolding b by blast
  moreover have "w = None \<longrightarrow> \<not> (\<exists>m. has_line b (Some m))"
    using w winner3_None unfolding b by blast
  ultimately show ?thesis using w by blast
qed

theorem winner_never_empty_line_witness:
  "board3 [[None, None, None], [Some X, Some X, Some X], [Some O', None, Some O']]
   \<and> winner [[None, None, None], [Some X, Some X, Some X], [Some O', None, Some O']] = Inr (Some X)
   \<and> has_line [[None, None, None], [Some X, Some X, Some X], [Some O', None, Some O']] (Some X)"
  using winner_never_empty_line [of "[[None, None, None], [Some X, Some X, Some X], [Some O', None, Some O']]"]
  by (simp add: board3_def winner3)

text \<open>
  Claim C4. On a 3x3 board, \<open>result\<close> raises IndexError when a coordinate is negative
  (the explicit check) or at least 3 (the list indexing of \<open>board[i][j]\<close>), raises
  ValueError when the square in bounds is occupied, and otherwise returns the board with
  the mover's mark on that square.
\<close>

theorem result_errors:
  assumes "board3 b"
  shows "(i < 0 \<or> j < 0 \<or> 3 \<le> i \<or> 3 \<le> j \<longrightarrow> (\<exists>msg. result b (i, j) = Inl (IndexError msg)))
       \<and> (0 \<le> i \<and> i < 3 \<and> 0 \<le> j \<and> j < 3 \<and> b ! nat i ! nat j \<noteq> None
            \<longrightarrow> (\<exists>msg. result b (i, j) = Inl (ValueError msg)))
       \<and> (0 \<le> i \<and> i < 3 \<and> 0 \<le> j \<and> j < 3 \<and> b ! nat i ! nat j = None
            \<longrightarrow> result b (i, j) = Inr (b[nat i := (b ! nat i)[nat j := Some (player b)]]))"
proof -
  have len: "length b = 3" and rows: "\<And>k. k < 3 \<Longrightarrow> length (b ! k) = 3"
    using assms by (auto simp: board3_def list_all_length)
  show ?thesis
    using len rows[of "nat i"]
    by (auto simp: result_def py_index_def Let_def)
qed

theorem result_errors_witness:
  "board3 initial_state
   \<and> (\<exists>msg. result initial_state (3, 0) = Inl (IndexError msg))
   \<and> (\<exists>msg. result initial_state (0, - 1) = Inl (IndexError msg))
   \<and> board3 [[Some X, None, None], [None, None, None], [None, None, None]]
   \<and> (\<exists>msg. result [[Some X, None, None], [None, None, None], [None, None, None]] (0, 0)
              = Inl (ValueError msg))
   \<and> result initial_state (0, 0) = Inr [[Some X, None, None], [None, None, None], [None, None, None]]"
proof -
  have b0: "board3 initial_state"
    by (simp add: board3_def initial_state_def)
  have b1: "board3 [[Some X, None, None], [None, None, None], [None, None, None]]"
    by (simp add: board3_def)
  have p: "player initial_state = X"
    by (simp add: player_def initial_state_def)
  show ?thesis
    using b0 b1 result_errors [OF b0, of 3 0] result_errors [OF b0, of 0 "- 1"]
      result_errors [OF b1, of 0 0] result_errors [OF b0, of 0 0]
    by (simp add: p) (simp add: initial_state_def)
qed

section \<open>Sentences and the knowledge engine: lemmas\<close>

lemma add_knowledge_unfold:
  "add_knowledge a cell cnt =
     (if fcard (unknown_neighbors (after_mark a cell) cell) = 0 then Some (after_mark a cell)
      else if observed (after_mark a cell) cell cnt \<in> set (knowledge (after_mark a cell))
      then Some (after_mark a cell)
      else fixpoint_loop ((after_mark a cell)\<lparr>knowledge := knowledge (after_mark a cell)
                            @ [observed (after_mark a cell) cell cnt]\<rparr>))"
  by (simp add: add_knowledge_def after_mark_def unknown_neighbors_def observed_def Let_def)

lemma sentence_mark_safe_notin: "cell |\<notin>| cells (sentence_mark_safe s cell)"
  by (simp add: sentence_mark_safe_def)

lemma add_knowledge_first: "add_knowledge (ai_init 8 8) (0, 0) 1 = Some s_first"
  by code_simp

lemma add_knowledge_second: "add_knowledge s_first (0, 1) 2 = Some s_second"
  by code_simp

text \<open>
  Claim C7. \<open>known_mines\<close> is the cell set when its size equals the count and empty
  otherwise; \<open>known_safes\<close> is the cell set when the count is 0 and empty otherwise;
  with the three examples of the specification, for distinct cells.
\<close>

theorem known_mines_safes:
  "known_mines s = (if int (fcard (cells s)) = count s then cells s else {||})
   \<and> known_safes s = (if count s = 0 then cells s else {||})
   \<and> (a \<noteq> b \<longrightarrow> known_mines \<lparr>cells = {|a, b|}, count = 2\<rparr> = {|a, b|})
   \<and> known_safes \<lparr>cells = {|a, b|}, count = 0\<rparr> = {|a, b|}
   \<and> (a \<noteq> b \<and> a \<noteq> c \<and> b \<noteq> c \<longrightarrow>
        known_mines \<lparr>cells = {|a, b, c|}, count = 1\<rparr> = {||}
        \<and> known_safes \<lparr>cells = {|a, b, c|}, count = 1\<rparr> = {||})"
  by (simp add: known_mines_def known_safes_def fcard_finsert_if)

theorem known_mines_safes_witness:
  "(0, 0) \<noteq> ((0, 1) :: cell) \<and> (0, 0) \<noteq> ((0, 2) :: cell) \<and> (0, 1) \<noteq> ((0, 2) :: cell)
   \<and> known_mines \<lparr>cells = {|(0, 0), (0, 1)|}, count = 2\<rparr> = {|(0, 0), (0, 1)|}
   \<and> known_safes \<lparr>cells = {|(0, 0), (0, 1)|}, count = 0\<rparr> = {|(0, 0), (0, 1)|}
   \<and> known_mines \<lparr>cells = {|(0, 0), (0, 1), (0, 2)|}, count = 1\<rparr> = {||}
   \<and> known_safes \<lparr>cells = {|(0, 0), (0, 1), (0, 2)|}, count = 1\<rparr> = {||}"
  using known_mines_safes [of "\<lparr>cells = {||}, count = 0\<rparr>" "(0, 0)" "(0, 1)" "(0, 2)"]
  by simp

text \<open>
  Claim C10. When \<open>add_knowledge\<close> returns early, because no neighbour is unknown or
  because the sentence it would add is already known, it returns the state in which the
  cell is recorded in \<open>moves_made\<close> and in \<open>safes\<close> and \<open>mark_safe\<close> has been applied
  to every sentence, so that no sentence contains the cell.
\<close>

theorem add_knowledge_early_exit:
  assumes "fcard (unknown_neighbors (after_mark a cell) cell) = 0
           \<or> observed (after_mark a cell) cell cnt \<in> set (knowledge (after_mark a cell))"
  shows "\<exists>a'. add_knowledge a cell cnt = Some a'
           \<and> moves_made a' = finsert cell (moves_made a)
           \<and> safes a' = finsert cell (safes a)
           \<and> mines a' = mines a
           \<and> knowledge a' = map (\<lambda>s. sentence_mark_safe s cell) (knowledge a)
           \<and> (\<forall>s \<in> set (knowledge a'). cell |\<notin>| cells s)"
proof -
  have "add_knowledge a cell cnt = Some (after_mark a cell)"
    using assms by (auto simp: add_knowledge_unfold)
  moreover have "\<forall>s \<in> set (knowledge (after_mark a cell)). cell |\<notin>| cells s"
    by (auto simp: after_mark_def mark_safe_def sentence_mark_safe_notin)
  ultimately show ?thesis
    by (simp add: after_mark_def mark_safe_def)
qed

theorem add_knowledge_early_exit_witness:
  "fcard (unknown_neighbors (after_mark (ai_init 1 1) (0, 0)) (0, 0)) = 0
   \<and> (\<exists>a'. add_knowledge (ai_init 1 1) (0, 0) 0 = Some a'
           \<and> moves_made a' = {|(0, 0)|} \<and> safes a' = {|(0, 0)|})
   \<and> observed (after_mark s_second (0, 1)) (0, 1) 2 \<in> set (knowledge (after_mark s_second (0, 1)))
   \<and> (\<exists>a'. add_knowledge s_second (0, 1) 2 = Some a'
           \<and> (\<forall>s \<in> set (knowledge a'). (0, 1) |\<notin>| cells s))"
proof -
  have h1: "fcard (unknown_neighbors (after_mark (ai_init 1 1) (0, 0)) (0, 0)) = 0"
    by code_simp
  have h2: "observed (after_mark s_second (0, 1)) (0, 1) 2
              \<in> set (knowledge (after_mark s_second (0, 1)))"
    by code_simp
  have m: "moves_made (ai_init 1 1) = {||}" "safes (ai_init 1 1) = {||}"
    by (simp_all add: ai_init_def)
  show ?thesis
    using h1 h2 add_knowledge_early_exit [of "ai_init 1 1" "(0, 0)" 0]
      add_knowledge_early_exit [of s_second "(0, 1)" 2]
    by (auto simp: m)
qed

text \<open>
  Claim C5 fails on the code. After \<open>add_knowledge((0,0), 1)\<close> and
  \<open>add_knowledge((0,1), 2)\<close> on a new 8x8 engine the knowledge holds two sentences over
  the same cells; the inference step, which runs after the removal of empty sentences,
  subtracts them from each other and adds a sentence with no cells, and the loop stops
  with it in the list.
\<close>

theorem empty_sentence_retained:
  "add_knowledge (ai_init 8 8) (0, 0) 1 = Some s_first
   \<and> add_knowledge s_first (0, 1) 2 = Some s_second
   \<and> \<lparr>cells = {||}, count = 0\<rparr> \<in> set (knowledge s_second)"
  by (simp add: add_knowledge_first add_knowledge_second) (simp add: s_second_def)

lemma make_inference_subset:
  assumes "i \<noteq> j" "cells (kb ! i) |\<subseteq>| cells (kb ! j)"
  shows "make_inference kb i j =
           (if difference_sentence (kb ! i) (kb ! j) \<notin> set kb
            then Some (difference_sentence (kb ! i) (kb ! j)) else None)"
proof -
  have "fcard (cells (kb ! i)) \<le> fcard (cells (kb ! j))"
    using assms(2) by (simp add: fcard_mono)
  then show ?thesis
    using assms by (simp add: make_inference_def difference_sentence_def Let_def)
qed

lemma set_map_filter_iff:
  "y \<in> set (List.map_filter f xs) \<longleftrightarrow> (\<exists>x \<in> set xs. f x = Some y)"
  by (induction xs) (auto split: option.splits)

lemma new_sentences_mem:
  assumes "i < length kb" "j < length kb" "make_inference kb i j = Some d"
  shows "d \<in> set (new_sentences kb)"
  unfolding new_sentences_def set_concat
proof (rule UN_I)
  show "List.map_filter (make_inference kb i) [0..<length kb]
          \<in> set (map (\<lambda>i. List.map_filter (make_inference kb i) [0..<length kb]) [0..<length kb])"
    using assms(1) by simp
  show "d \<in> set (List.map_filter (make_inference kb i) [0..<length kb])"
    using assms(2,3) by (auto simp: set_map_filter_iff)
qed

lemma subset_pair_derived:
  assumes "i < length kb" "j < length kb" "i \<noteq> j" "cells (kb ! i) |\<subseteq>| cells (kb ! j)"
  shows "difference_sentence (kb ! i) (kb ! j) \<in> set (kb @ new_sentences kb)"
    and "difference_sentence (kb ! i) (kb ! j) \<notin> set kb
         \<Longrightarrow> difference_sentence (kb ! i) (kb ! j) \<in> set (new_sentences kb)"
proof -
  show new: "difference_sentence (kb ! i) (kb ! j) \<in> set (new_sentences kb)"
    if "difference_sentence (kb ! i) (kb ! j) \<notin> set kb"
    using that make_inference_subset [OF assms(3,4)] new_sentences_mem [OF assms(1,2)]
    by simp
  then show "difference_sentence (kb ! i) (kb ! j) \<in> set (kb @ new_sentences kb)"
    by (cases "difference_sentence (kb ! i) (kb ! j) \<in> set kb") simp_all
qed

lemma loop_pass_knowledge:
  "knowledge (loop_pass a) = live_sentences a @ new_sentences (live_sentences a)"
  by (simp add: loop_pass_def infer_all_def live_sentences_def)

lemma kb_example_live: "live_sentences kb_example = knowledge kb_example"
  by code_simp

lemma kb_example_pass:
  "knowledge (loop_pass kb_example) =
     [\<lparr>cells = {|(0, 0), (0, 1)|}, count = 1\<rparr>, \<lparr>cells = {|(0, 0), (0, 1), (0, 2)|}, count = 2\<rparr>,
      \<lparr>cells = {|(0, 2)|}, count = 1\<rparr>, \<lparr>cells = {|(0, 2)|}, count = 1\<rparr>]"
  by code_simp

lemma kb_example_fixpoint:
  "fixpoint_loop kb_example =
     Some \<lparr>height = 1, width = 3, moves_made = {||}, mines = {|(0, 2)|}, safes = {||},
            knowledge = [\<lparr>cells = {|(0, 0), (0, 1)|}, count = 1\<rparr>,
                         \<lparr>cells = {|(0, 0), (0, 1)|}, count = 1\<rparr>,
                         \<lparr>cells = {||}, count = 0\<rparr>, \<lparr>cells = {||}, count = 0\<rparr>]\<rparr>"
  by code_simp

text \<open>
  Claim C3. In a pass of the fixpoint loop, for every ordered pair of distinct sentences
  live at the inference step of which the first one's cells are a subset of the second
  one's, the sentence over the difference of the cells with the difference of the counts
  is in the knowledge after the pass, and it is among the sentences the pass adds when it
  was not there before. With \<open>{(0,0),(0,1)} = 1\<close> and \<open>{(0,0),(0,1),(0,2)} = 2\<close> the first
  pass derives \<open>{(0,2)} = 1\<close> and the loop ends with (0,2) marked as a mine.
\<close>

theorem subset_inference:
  "(\<forall>i j. i < length (live_sentences a) \<and> j < length (live_sentences a) \<and> i \<noteq> j
        \<and> cells (live_sentences a ! i) |\<subseteq>| cells (live_sentences a ! j)
      \<longrightarrow> difference_sentence (live_sentences a ! i) (live_sentences a ! j)
             \<in> set (knowledge (loop_pass a))
          \<and> (difference_sentence (live_sentences a ! i) (live_sentences a ! j)
                \<notin> set (live_sentences a)
               \<longrightarrow> difference_sentence (live_sentences a ! i) (live_sentences a ! j)
                     \<in> set (new_sentences (live_sentences a))))
   \<and> \<lparr>cells = {|(0, 2)|}, count = 1\<rparr> \<in> set (knowledge (loop_pass kb_example))
   \<and> (\<exists>a'. fixpoint_loop kb_example = Some a' \<and> (0, 2) |\<in>| mines a')"
proof -
  have ex1: "\<lparr>cells = {|(0, 2)|}, count = 1\<rparr> \<in> set (knowledge (loop_pass kb_example))"
    by (simp add: kb_example_pass)
  have ex2: "\<exists>a'. fixpoint_loop kb_example = Some a' \<and> (0, 2) |\<in>| mines a'"
    by (simp add: kb_example_fixpoint)
  show ?thesis
    using ex1 ex2 subset_pair_derived [of _ "live_sentences a"]
    by (simp add: loop_pass_knowledge)
qed

theorem subset_inference_witness:
  "(0::nat) < length (live_sentences kb_example) \<and> (1::nat) < length (live_sentences kb_example)
   \<and> (0::nat) \<noteq> 1
   \<and> cells (live_sentences kb_example ! 0) |\<subseteq>| cells (live_sentences kb_example ! 1)
   \<and> difference_sentence (live_sentences kb_example ! 0) (live_sentences kb_example ! 1)
         \<notin> set (live_sentences kb_example)
   \<and> difference_sentence (live_sentences kb_example ! 0) (live_sentences kb_example ! 1)
         = \<lparr>cells = {|(0, 2)|}, count = 1\<rparr>
   \<and> \<lparr>cells = {|(0, 2)|}, count = 1\<rparr> \<in> set (knowledge (loop_pass kb_example))
   \<and> \<lparr>cells = {|(0, 2)|}, count = 1\<rparr> \<in> set (new_sentences (live_sentences kb_example))"
proof -
  have d: "difference_sentence (live_sentences kb_example ! 0) (live_sentences kb_example ! 1)
             = \<lparr>cells = {|(0, 2)|}, count = 1\<rparr>"
    by code_simp
  have h: "(0::nat) < length (live_sentences kb_example)" "(1::nat) < length (live_sentences kb_example)"
    "cells (live_sentences kb_example ! 0) |\<subseteq>| cells (live_sentences kb_example ! 1)"
    "\<lparr>cells = {|(0, 2)|}, count = 1\<rparr> \<notin> set (live_sentences kb_example)"
    by code_simp+
  from subset_inference [of kb_example, THEN conjunct1, rule_format, of 0 1]
  have "difference_sentence (live_sentences kb_example ! 0) (live_sentences kb_example ! 1)
             \<in> set (knowledge (loop_pass kb_example))
          \<and> (difference_sentence (live_sentences kb_example ! 0) (live_sentences kb_example ! 1)
                \<notin> set (live_sentences kb_example)
               \<longrightarrow> difference_sentence (live_sentences kb_example ! 0) (live_sentences kb_example ! 1)
                     \<in> set (new_sentences (live_sentences kb_example)))"
    using h(1,2,3) by simp
  then show ?thesis
    using h unfolding d by simp
qed

section \<open>Reachable states of the engine\<close>

lemma mark_safe_simps [simp]:
  "height (mark_safe a c) = height a" "width (mark_safe a c) = width a"
  "moves_made (mark_safe a c) = moves_made a" "mines (mark_safe a c) = mines a"
  "safes (mark_safe a c) = finsert c (safes a)"
  "knowledge (mark_safe a c) = map (\<lambda>s. sentence_mark_safe s c) (knowledge a)"
  by (simp_all add: mark_safe_def)

lemma mark_mine_simps [simp]:
  "height (mark_mine a c) = height a" "width (mark_mine a c) = width a"
  "moves_made (mark_mine a c) = moves_made a" "safes (mark_mine a c) = safes a"
  "mines (mark_mine a c) = finsert c (mines a)"
  "knowledge (mark_mine a c) = map (\<lambda>s. sentence_mark_mine s c) (knowledge a)"
  by (simp_all add: mark_mine_def)

lemma cells_mark_safe [simp]: "cells (sentence_mark_safe s c) = cells s |-| {|c|}"
  by (auto simp: sentence_mark_safe_def)

lemma cells_mark_mine [simp]: "cells (sentence_mark_mine s c) = cells s |-| {|c|}"
  by (auto simp: sentence_mark_mine_def)

lemma get_neighbors_cong:
  "height a' = height a \<Longrightarrow> width a' = width a \<Longrightarrow> get_neighbors a' c = get_neighbors a c"
  by (simp only: get_neighbors_def)

lemma kb_inv_mark_safe:
  assumes "kb_inv a" "c |\<notin>| mines a \<or> c |\<in>| moves_made a"
  shows "kb_inv (mark_safe a c)"
  using assms unfolding kb_inv_def by auto

lemma kb_inv_mark_mine:
  assumes "kb_inv a" "c |\<notin>| safes a \<or> c |\<in>| moves_made a"
  shows "kb_inv (mark_mine a c)"
  using assms unfolding kb_inv_def by auto

lemma unknown_neighbors_alt:
  "unknown_neighbors a cell = get_neighbors a cell |-| (mines a |\<union>| safes a)"
  by (auto simp: unknown_neighbors_def)

lemma observed_mark_safe:
  "observed (mark_safe a c) cell cnt = sentence_mark_safe (observed a cell cnt) c"
  by (auto simp: observed_def unknown_neighbors_alt sentence_mark_safe_def
      get_neighbors_cong [of "mark_safe a c" a])

lemma fcard_inter_finsert:
  "c |\<in>| N \<Longrightarrow> c |\<notin>| M \<Longrightarrow> int (fcard (N |\<inter>| finsert c M)) = int (fcard (N |\<inter>| M)) + 1"
proof -
  assume a: "c |\<in>| N" "c |\<notin>| M"
  then have "N |\<inter>| finsert c M = finsert c (N |\<inter>| M)" by auto
  moreover have "c |\<notin>| N |\<inter>| M" using a by simp
  ultimately show ?thesis by (simp add: fcard_finsert_disjoint)
qed

lemma observed_mark_mine:
  assumes "c |\<notin>| safes a"
  shows "observed (mark_mine a c) cell cnt = sentence_mark_mine (observed a cell cnt) c"
proof (cases "c |\<in>| get_neighbors a cell \<and> c |\<notin>| mines a")
  case True
  then show ?thesis
    using assms
    by (auto simp: observed_def unknown_neighbors_alt sentence_mark_mine_def
        get_neighbors_cong [of "mark_mine a c" a] fcard_finsert_disjoint)
next
  case False
  then have "get_neighbors a cell |\<inter>| finsert c (mines a) = get_neighbors a cell |\<inter>| mines a"
    by auto
  then show ?thesis
    using assms False
    by (auto simp: observed_def unknown_neighbors_alt sentence_mark_mine_def
        get_neighbors_cong [of "mark_mine a c" a])
qed

lemma obs_inv_mark_safe:
  assumes "obs_inv cell cnt a"
  shows "obs_inv cell cnt (mark_safe a c)"
proof -
  have "fcard (unknown_neighbors (mark_safe a c) cell) = 0"
    if "fcard (unknown_neighbors a cell) = 0"
    using that by (auto simp: unknown_neighbors_alt get_neighbors_cong [of "mark_safe a c" a])
  then show ?thesis
    using assms unfolding obs_inv_def by (auto simp: observed_mark_safe)
qed

lemma obs_inv_mark_mine:
  assumes "obs_inv cell cnt a" "c |\<notin>| safes a"
  shows "obs_inv cell cnt (mark_mine a c)"
proof -
  have "fcard (unknown_neighbors (mark_mine a c) cell) = 0"
    if "fcard (unknown_neighbors a cell) = 0"
    using that by (auto simp: unknown_neighbors_alt get_neighbors_cong [of "mark_mine a c" a])
  then show ?thesis
    using assms unfolding obs_inv_def by (auto simp: observed_mark_mine)
qed

lemma fold_mark_safe_inv:
  assumes "pass_inv cell cnt a" "\<forall>c \<in> set cs. c |\<notin>| mines a"
  shows "pass_inv cell cnt (fold (\<lambda>c a'. mark_safe a' c) cs a)"
  using assms
proof (induction cs arbitrary: a)
  case Nil
  then show ?case by simp
next
  case (Cons c cs)
  have "pass_inv cell cnt (mark_safe a c)"
    using Cons.prems by (simp add: pass_inv_def kb_inv_mark_safe obs_inv_mark_safe)
  then show ?case
    using Cons.IH [of "mark_safe a c"] Cons.prems(2) by simp
qed

lemma fold_mark_mine_inv:
  assumes "pass_inv cell cnt a" "\<forall>c \<in> set cs. c |\<notin>| safes a"
  shows "pass_inv cell cnt (fold (\<lambda>c a'. mark_mine a' c) cs a)"
  using assms
proof (induction cs arbitrary: a)
  case Nil
  then show ?case by simp
next
  case (Cons c cs)
  have "pass_inv cell cnt (mark_mine a c)"
    using Cons.prems by (simp add: pass_inv_def kb_inv_mark_mine obs_inv_mark_mine)
  then show ?case
    using Cons.IH [of "mark_mine a c"] Cons.prems(2) by simp
qed

lemma set_set_iter [simp]: "set (set_iter S) = fset S"
  by (simp add: set_iter_def)

lemma length_fold_mark_safe [simp]:
  "length (knowledge (fold (\<lambda>c a'. mark_safe a' c) cs a)) = length (knowledge a)"
  by (induction cs arbitrary: a) simp_all

lemma length_fold_mark_mine [simp]:
  "length (knowledge (fold (\<lambda>c a'. mark_mine a' c) cs a)) = length (knowledge a)"
  by (induction cs arbitrary: a) simp_all

lemma length_make_conclusion [simp]:
  "length (knowledge (make_conclusion a i)) = length (knowledge a)"
  by (simp add: make_conclusion_def Let_def)

lemma make_conclusion_inv:
  assumes "pass_inv cell cnt a" "i < length (knowledge a)"
  shows "pass_inv cell cnt (make_conclusion a i)"
proof -
  have "\<forall>c. c |\<in>| cells (knowledge a ! i) \<longrightarrow> c |\<notin>| safes a \<and> c |\<notin>| mines a"
    using assms nth_mem [OF assms(2)] unfolding pass_inv_def kb_inv_def by blast
  then have "pass_inv cell cnt (fold (\<lambda>c a'. mark_safe a' c) (set_iter (cells (knowledge a ! i))) a)"
    and "pass_inv cell cnt (fold (\<lambda>c a'. mark_mine a' c) (set_iter (cells (knowledge a ! i))) a)"
    using assms(1) by (auto intro!: fold_mark_safe_inv fold_mark_mine_inv)
  then show ?thesis
    using assms(1) by (simp add: make_conclusion_def Let_def)
qed

lemma fold_make_conclusion_inv:
  assumes "pass_inv cell cnt a" "\<forall>i \<in> set is. i < length (knowledge a)"
  shows "pass_inv cell cnt (fold (\<lambda>i a'. make_conclusion a' i) is a)"
  using assms
proof (induction "is" arbitrary: a)
  case Nil
  then show ?case by simp
next
  case (Cons i "is")
  then show ?case
    using make_conclusion_inv [of cell cnt a i] by simp
qed

lemma conclude_all_inv: "pass_inv cell cnt a \<Longrightarrow> pass_inv cell cnt (conclude_all a)"
  by (simp add: conclude_all_def fold_make_conclusion_inv)

lemma remove_empty_simps [simp]:
  "height (remove_empty a) = height a" "width (remove_empty a) = width a"
  "moves_made (remove_empty a) = moves_made a" "mines (remove_empty a) = mines a"
  "safes (remove_empty a) = safes a"
  "knowledge (remove_empty a) = filter (\<lambda>s. fcard (cells s) \<noteq> 0) (knowledge a)"
  by (simp_all add: remove_empty_def)

lemma infer_all_simps [simp]:
  "height (infer_all a) = height a" "width (infer_all a) = width a"
  "moves_made (infer_all a) = moves_made a" "mines (infer_all a) = mines a"
  "safes (infer_all a) = safes a"
  "knowledge (infer_all a) = knowledge a @ new_sentences (knowledge a)"
  by (simp_all add: infer_all_def)

lemma unknown_neighbors_cong:
  "height a' = height a \<Longrightarrow> width a' = width a \<Longrightarrow> mines a' = mines a \<Longrightarrow> safes a' = safes a
   \<Longrightarrow> unknown_neighbors a' c = unknown_neighbors a c"
  by (simp only: unknown_neighbors_def get_neighbors_cong [of a' a])

lemma observed_cong:
  "height a' = height a \<Longrightarrow> width a' = width a \<Longrightarrow> mines a' = mines a \<Longrightarrow> safes a' = safes a
   \<Longrightarrow> observed a' c n = observed a c n"
  by (simp only: observed_def unknown_neighbors_cong [of a' a] get_neighbors_cong [of a' a])

lemma remove_empty_inv: "pass_inv cell cnt a \<Longrightarrow> pass_inv cell cnt (remove_empty a)"
  unfolding pass_inv_def kb_inv_def obs_inv_def
  by (auto simp: unknown_neighbors_cong [of "remove_empty a" a] observed_cong [of "remove_empty a" a])
     (simp add: observed_def)

lemma make_inference_cells:
  assumes "make_inference kb i j = Some d" "i < length kb" "j < length kb"
  shows "\<exists>s \<in> set kb. cells d |\<subseteq>| cells s"
  using assms
  by (auto simp: make_inference_def Let_def split: if_splits intro: nth_mem)

lemma new_sentences_cells:
  assumes "d \<in> set (new_sentences kb)"
  shows "\<exists>s \<in> set kb. cells d |\<subseteq>| cells s"
proof -
  from assms obtain i j where "i < length kb" "j < length kb" "make_inference kb i j = Some d"
    by (auto simp: new_sentences_def set_map_filter_iff)
  then show ?thesis using make_inference_cells by blast
qed

lemma infer_all_inv: "pass_inv cell cnt a \<Longrightarrow> pass_inv cell cnt (infer_all a)"
  unfolding pass_inv_def kb_inv_def obs_inv_def
  by (auto simp: unknown_neighbors_cong [of "infer_all a" a] observed_cong [of "infer_all a" a]
      dest!: new_sentences_cells)

lemma loop_pass_inv: "pass_inv cell cnt a \<Longrightarrow> pass_inv cell cnt (loop_pass a)"
  by (simp add: loop_pass_def infer_all_inv remove_empty_inv conclude_all_inv)

lemma fixpoint_loop_inv:
  assumes "fixpoint_loop a = Some a'"
  shows "pass_inv cell cnt a \<longrightarrow> pass_inv cell cnt a'"
proof (rule fixpoint_loop.raw_induct [where P = "\<lambda>a a'. pass_inv cell cnt a \<longrightarrow> pass_inv cell cnt a'",
      OF _ assms])
  fix loop :: "ai \<Rightarrow> ai option" and a a'
  assume IH: "\<And>a a'. loop a = Some a' \<Longrightarrow> pass_inv cell cnt a \<longrightarrow> pass_inv cell cnt a'"
    and eq: "(let prev_mines = fcard (mines a); prev_safes = fcard (safes a);
                  prev_knowledge = length (knowledge a); a' = loop_pass a
              in if fcard (mines a') = prev_mines \<and> fcard (safes a') = prev_safes
                    \<and> length (knowledge a') = prev_knowledge
                 then Some a' else loop a') = Some a'"
  show "pass_inv cell cnt a \<longrightarrow> pass_inv cell cnt a'"
  proof
    assume "pass_inv cell cnt a"
    then have p: "pass_inv cell cnt (loop_pass a)" by (rule loop_pass_inv)
    from eq have "a' = loop_pass a \<or> loop (loop_pass a) = Some a'"
      by (simp add: Let_def split: if_splits)
    then show "pass_inv cell cnt a'" using p IH by blast
  qed
qed

lemma after_mark_simps [simp]:
  "height (after_mark a c) = height a" "width (after_mark a c) = width a"
  "moves_made (after_mark a c) = finsert c (moves_made a)" "mines (after_mark a c) = mines a"
  "safes (after_mark a c) = finsert c (safes a)"
  "knowledge (after_mark a c) = map (\<lambda>s. sentence_mark_safe s c) (knowledge a)"
  by (simp_all add: after_mark_def)

lemma after_mark_kb_inv: "kb_inv a \<Longrightarrow> kb_inv (after_mark a cell)"
  unfolding kb_inv_def by auto

lemma observed_knowledge_update [simp]:
  "observed (b\<lparr>knowledge := k\<rparr>) cell cnt = observed b cell cnt"
  by (rule observed_cong) simp_all

lemma unknown_neighbors_knowledge_update [simp]:
  "unknown_neighbors (b\<lparr>knowledge := k\<rparr>) cell = unknown_neighbors b cell"
  by (rule unknown_neighbors_cong) simp_all

lemma kb_inv_append:
  assumes "kb_inv b" "\<forall>c. c |\<in>| cells s \<longrightarrow> c |\<notin>| safes b \<and> c |\<notin>| mines b"
  shows "kb_inv (b\<lparr>knowledge := knowledge b @ [s]\<rparr>)"
  using assms unfolding kb_inv_def by auto

lemma observed_cells_unknown:
  "c |\<in>| cells (observed b cell cnt) \<Longrightarrow> c |\<notin>| safes b \<and> c |\<notin>| mines b"
  by (simp add: observed_def unknown_neighbors_alt)

lemma add_knowledge_inv:
  assumes "kb_inv a" "add_knowledge a cell cnt = Some a'"
  shows "pass_inv cell cnt a'"
proof -
  let ?b = "after_mark a cell"
  let ?s = "observed ?b cell cnt"
  let ?c = "?b\<lparr>knowledge := knowledge ?b @ [?s]\<rparr>"
  have kb: "kb_inv ?b" using assms(1) by (rule after_mark_kb_inv)
  have eq: "(if fcard (unknown_neighbors ?b cell) = 0 then Some ?b
             else if ?s \<in> set (knowledge ?b) then Some ?b else fixpoint_loop ?c) = Some a'"
    using assms(2) unfolding add_knowledge_unfold .
  consider (none) "fcard (unknown_neighbors ?b cell) = 0" "a' = ?b"
    | (known) "?s \<in> set (knowledge ?b)" "a' = ?b"
    | (loop) "fixpoint_loop ?c = Some a'"
  proof (cases "fcard (unknown_neighbors ?b cell) = 0")
    case True
    with eq have "a' = ?b" by simp
    with True that(1) show ?thesis by blast
  next
    case F1: False
    show ?thesis
    proof (cases "?s \<in> set (knowledge ?b)")
      case True
      with eq F1 have "a' = ?b" by simp
      with True that(2) show ?thesis by blast
    next
      case False
      with eq F1 have "fixpoint_loop ?c = Some a'" by simp
      with that(3) show ?thesis by blast
    qed
  qed
  then show ?thesis
  proof cases
    case none
    then show ?thesis using kb by (simp add: pass_inv_def obs_inv_def)
  next
    case known
    then show ?thesis using kb by (simp add: pass_inv_def obs_inv_def)
  next
    case loop
    have "kb_inv ?c"
      using kb observed_cells_unknown [of _ ?b cell cnt] by (intro kb_inv_append) blast+
    moreover have "obs_inv cell cnt ?c"
      unfolding obs_inv_def by simp
    ultimately have "pass_inv cell cnt ?c" by (simp add: pass_inv_def)
    then show ?thesis using fixpoint_loop_inv [OF loop] by blast
  qed
qed

lemma reachable_kb_inv: "reachable a \<Longrightarrow> kb_inv a"
proof (induction rule: reachable.induct)
  case (reachable_init h w)
  show ?case by (simp add: kb_inv_def ai_init_def)
next
  case (reachable_step a cell cnt a')
  then show ?case using add_knowledge_inv by (auto simp: pass_inv_def)
qed

lemma add_knowledge_zero: "add_knowledge (ai_init 8 8) (0, 0) 0 = Some s_zero"
  by code_simp

lemma reachable_s_zero: "reachable s_zero"
  using reachable_step [OF reachable_init add_knowledge_zero] .

lemma reachable_s_first: "reachable s_first"
  using reachable_step [OF reachable_init add_knowledge_first] .

lemma make_safe_move_s_zero: "make_safe_move s_zero 0 = (Some (0, 1), s_zero)"
  by code_simp

text \<open>
  Claim C8. In every reachable state \<open>make_safe_move\<close>, whatever the random draw,
  returns a cell that is in \<open>safes\<close>, not in \<open>moves_made\<close> and not in \<open>mines\<close>, or
  \<open>None\<close> when no such cell exists, and returns the state as it was.
\<close>

theorem make_safe_move_safe:
  assumes "reachable a"
  shows "(case fst (make_safe_move a r) of
            Some c \<Rightarrow> c |\<in>| safes a \<and> c |\<notin>| moves_made a \<and> c |\<notin>| mines a
          | None \<Rightarrow> \<not> (\<exists>c. c |\<in>| safes a \<and> c |\<notin>| moves_made a \<and> c |\<notin>| mines a))
         \<and> snd (make_safe_move a r) = a"
proof -
  let ?S = "safes a |-| moves_made a"
  have inv: "\<forall>c. c |\<in>| safes a \<longrightarrow> c |\<in>| mines a \<longrightarrow> c |\<in>| moves_made a"
    using reachable_kb_inv [OF assms] by (simp add: kb_inv_def)
  show ?thesis
  proof (cases "fcard ?S = 0")
    case True
    then have "?S = {||}" by (simp add: fcard_0_eq)
    then have "\<not> (\<exists>c. c |\<in>| safes a \<and> c |\<notin>| moves_made a)" by auto
    then show ?thesis using True by (simp add: make_safe_move_def Let_def)
  next
    case False
    then have ne: "set_iter ?S \<noteq> []"
      by (metis fcard_fempty empty_set set_set_iter bot_fset.rep_eq fset_inverse)
    define x where "x = set_iter ?S ! (r mod length (set_iter ?S))"
    have "x \<in> set (set_iter ?S)"
      unfolding x_def using ne by (intro nth_mem) simp
    then have "x |\<in>| ?S"
      by simp
    then have xs: "x |\<in>| safes a" "x |\<notin>| moves_made a"
      by simp_all
    then have "x |\<notin>| mines a"
      using inv by blast
    note xs = xs this
    have "make_safe_move a r = (Some x, a)"
      using False by (simp add: make_safe_move_def Let_def x_def)
    then show ?thesis using xs by simp
  qed
qed

theorem make_safe_move_safe_witness:
  "reachable s_zero \<and> fst (make_safe_move s_zero 0) = Some (0, 1)
   \<and> (0, 1) |\<in>| safes s_zero \<and> (0, 1) |\<notin>| moves_made s_zero \<and> (0, 1) |\<notin>| mines s_zero
   \<and> snd (make_safe_move s_zero 0) = s_zero"
  using make_safe_move_safe [OF reachable_s_zero, of 0] reachable_s_zero
  by (simp add: make_safe_move_s_zero)

text \<open>
  Claim C6. In a reachable state, after a call of \<open>add_knowledge\<close> that returns, a second
  call with the same cell and count returns too and leaves \<open>mines\<close>, \<open>safes\<close> and the
  length of \<open>knowledge\<close> as the first call left them.
\<close>

theorem add_knowledge_twice:
  assumes "reachable a" "add_knowledge a cell cnt = Some a1"
  shows "\<exists>a2. add_knowledge a1 cell cnt = Some a2
           \<and> mines a2 = mines a1 \<and> safes a2 = safes a1
           \<and> length (knowledge a2) = length (knowledge a1)"
proof -
  have p: "pass_inv cell cnt a1"
    using add_knowledge_inv [OF reachable_kb_inv [OF assms(1)] assms(2)] .
  then have c: "cell |\<in>| safes a1" "cell |\<in>| moves_made a1"
    and k: "\<forall>s \<in> set (knowledge a1). cell |\<notin>| cells s"
    and o: "fcard (unknown_neighbors a1 cell) = 0 \<or> observed a1 cell cnt \<in> set (knowledge a1)"
    unfolding pass_inv_def obs_inv_def kb_inv_def by blast+
  have "map (\<lambda>s. sentence_mark_safe s cell) (knowledge a1) = knowledge a1"
    using k by (simp add: map_idI sentence_mark_safe_def)
  then have "after_mark a1 cell = a1"
    using c by (simp add: after_mark_def mark_safe_def finsert_absorb)
  then have "add_knowledge a1 cell cnt = Some a1"
    using o by (auto simp: add_knowledge_unfold)
  then show ?thesis by simp
qed


theorem add_knowledge_twice_witness:
  "reachable s_first \<and> add_knowledge s_first (0, 1) 2 = Some s_second
   \<and> (\<exists>a2. add_knowledge s_second (0, 1) 2 = Some a2
          \<and> mines a2 = mines s_second \<and> safes a2 = safes s_second
          \<and> length (knowledge a2) = length (knowledge s_second))"
  using add_knowledge_twice [OF reachable_s_first add_knowledge_second]
    reachable_s_first add_knowledge_second
  by simp

end
